theory Spec2Isabelle
  imports Complex_Main
begin

section \<open>Reliable transfer: \<open>socket_io.c\<close>\<close>

text \<open>
  The kernel is the environment of the transfer loops. It is modelled as a script: the
  list of the outcomes of the system calls still to come, consumed one per call. An entry
  \<open>Xfer k\<close> says that the kernel is ready to move \<open>k\<close> bytes at that call; a call asking
  for \<open>c\<close> bytes then returns \<open>min k c\<close>, since \<open>read\<close>, \<open>recv\<close> and \<open>write\<close> never
  return more than the count they were given (so \<open>nleft -= nread\<close> cannot pass zero).
  \<open>Xfer 0\<close> is a return value of 0: end of stream for a read, a timed-out write.
  An entry \<open>Fail e\<close> is a return value of \<open>-1\<close> with \<open>errno = e\<close>.

  A loop that has used up the script has not returned: the result is \<open>None\<close>.
  The contents of the buffers are not modelled, only the byte counts. The diagnostics of
  \<open>WARN\<close>, \<open>WARN_errno\<close> and \<open>fprintf\<close> are not part of the state here. The flag
  \<open>sInterupted\<close> changes only where the code of this file assigns it; a signal handler
  writing it between two iterations is outside the model.
\<close>

datatype errno = EINTR | EAGAIN | EWOULDBLOCK | ECONNRESET | ECONNABORTED
  | EINVAL | ENOTSUP | EPERM | EOTHER nat

datatype sysret = Xfer nat | Fail errno

text \<open>An \<open>assert\<close> that fails aborts the process; the call does not return a value.\<close>

datatype 'a call = Returned 'a | AssertFailed

text \<open>\<open>SOCKET_ERROR\<close>: the comments of the file give the value, "or -1 on error".\<close>

definition SOCKET_ERROR :: int where
  "SOCKET_ERROR = - 1"

subsection \<open>\<open>readn\<close>\<close>

text \<open>
  \<open>nleft\<close> is a \<open>size_t\<close>; \<open>nread\<close> is at most \<open>nleft\<close>, so the subtraction is exact.
  On \<open>EINTR\<close> the code sets \<open>nread = 0\<close> and goes on to \<open>nleft -= nread\<close>.
\<close>

fun readn_loop :: "nat \<Rightarrow> nat \<Rightarrow> sysret list \<Rightarrow> (int \<times> sysret list) option" where
  "readn_loop inLen nleft [] =
     (if nleft > 0 then None else Some (int (inLen - nleft), []))"
| "readn_loop inLen nleft (x # sc) =
     (if nleft > 0 then
        (case x of
           Fail e \<Rightarrow>
             if e = EINTR then readn_loop inLen (nleft - 0) sc
             else Some (SOCKET_ERROR, sc)
         | Xfer k \<Rightarrow>
             (let nread = min k nleft in
              if nread = 0 then Some (int (inLen - nleft), sc)
              else readn_loop inLen (nleft - nread) sc))
      else Some (int (inLen - nleft), x # sc))"

definition readn :: "nat \<Rightarrow> sysret list \<Rightarrow> (int \<times> sysret list) call option" where
  "readn inLen sc =
     (if inLen > 0 then map_option Returned (readn_loop inLen inLen sc)
      else Some AssertFailed)"

subsection \<open>\<open>recvn\<close>\<close>





subsection \<open>\<open>writen\<close>\<close>



subsection \<open>\<open>writemsg_delay_tos\<close> without \<open>SO_TXTIME\<close>\<close>

text \<open>
  The \<open>#else\<close> branch of the file: a warning, then one \<open>write\<close> of the buffer whose
  result is returned as it is. It has no assertion, and \<open>delay_ns\<close> and \<open>tos_value\<close> are
  not used. The \<open>sendmsg\<close> branch, compiled when \<open>HAVE_DECL_SO_TXTIME\<close> holds, is not
  embedded.
\<close>

fun writemsg_delay_tos :: "int \<Rightarrow> nat \<Rightarrow> int \<Rightarrow> sysret list \<Rightarrow> (int \<times> sysret list) option" where
  "writemsg_delay_tos inLen delay_ns tos_value [] = None"
| "writemsg_delay_tos inLen delay_ns tos_value (Xfer k # sc) = Some (min (int k) inLen, sc)"
| "writemsg_delay_tos inLen delay_ns tos_value (Fail e # sc) = Some (SOCKET_ERROR, sc)"

text \<open>Predicates on scripts used to state the properties.\<close>

fun offered :: "sysret list \<Rightarrow> nat" where
  "offered [] = 0"
| "offered (Xfer k # sc) = k + offered sc"
| "offered (Fail e # sc) = offered sc"

fun moves_or_eintr :: "sysret \<Rightarrow> bool" where
  "moves_or_eintr (Xfer k) = (k > 0)"
| "moves_or_eintr (Fail e) = (e = EINTR)"



section \<open>The transition graph: \<open>markov.c\<close>\<close>

text \<open>
  The numbers of the graph (\<open>prob\<close>, \<open>prob_bound\<close>, the draw \<open>pull_rand\<close>) are real numbers
  here: the arithmetic of the code is taken as exact, without the rounding of \<open>float\<close> and
  \<open>double\<close>, and without infinities and NaN. The comparisons and the tolerance are those
  of the macros of the file.
\<close>

definition FLOATTOLERANCE :: real where
  "FLOATTOLERANCE = 1 / 100000"

definition FloatEqualZero :: "real \<Rightarrow> bool" where
  "FloatEqualZero v = (\<bar>v\<bar> < FLOATTOLERANCE)"

definition FloatLessThanZero :: "real \<Rightarrow> bool" where
  "FloatLessThanZero v = (v < 0)"

definition FloatLessThanOne :: "real \<Rightarrow> bool" where
  "FloatLessThanOne v = (1 - v > FLOATTOLERANCE)"

definition FloatGreaterThanOne :: "real \<Rightarrow> bool" where
  "FloatGreaterThanOne v = (v - 1 > FLOATTOLERANCE)"

text \<open>
  The structures are declared in \<open>markov.h\<close>, which is not among the sources; the fields
  are those the code uses. The field \<open>value\<close> of an entry is called \<open>val\<close>.
\<close>

record markov_entry =
  val :: int
  len :: int
  prob :: real
  prob_bound :: real

record markov_graph =
  count :: nat
  seed :: int
  cur_row :: nat
  cur_col :: nat
  entrys :: "markov_entry list list"

text \<open>
  Where the C code reads or writes outside an object, dereferences \<open>NULL\<close> or reads past
  the end of a buffer, its behaviour is undefined: the model says \<open>Undefined\<close> and nothing
  more about that run.
\<close>

datatype 'a behaviour = Defined 'a | Undefined

text \<open>The lines the code prints to \<open>stderr\<close>, with the arguments of their formats.\<close>

datatype diag =
    Invalid_value string
  | Prob_range real
  | Cum_greater nat real
  | Malformed_row nat string nat
  | Cum_less nat real

fun fatal_diag :: "diag \<Rightarrow> bool" where
  "fatal_diag (Malformed_row n pos cx) = False"
| "fatal_diag d = True"

subsection \<open>Strings and \<open>strtok\<close>\<close>

definition deblank :: "string \<Rightarrow> string" where
  "deblank str = filter (\<lambda>c. c \<noteq> CHR '' '') str"

text \<open>
  \<open>strtok_list d s\<close> is the sequence of tokens that \<open>strtok(s, d)\<close> and the following calls
  \<open>strtok(NULL, d)\<close> return, until \<open>NULL\<close>, on the string \<open>s\<close> with the one delimiter \<open>d\<close>:
  the maximal runs of characters other than \<open>d\<close>.
\<close>

function strtok_list :: "char \<Rightarrow> string \<Rightarrow> string list" where
  "strtok_list d [] = []"
| "strtok_list d (c # cs) =
     (if c = d then strtok_list d cs
      else takeWhile (\<lambda>x. x \<noteq> d) (c # cs) # strtok_list d (drop 1 (dropWhile (\<lambda>x. x \<noteq> d) cs)))"
  by pat_completeness auto
termination
  by (relation "measure (\<lambda>(d, s). length s)")
     (auto simp: le_imp_less_Suc length_dropWhile_le order.trans [OF diff_le_self])

text \<open>
  A buffer is the list of its characters, the terminating \<open>NUL\<close> included; a pointer into
  it is the rest of the buffer from that position on, and the empty list is a pointer
  past the end. \<open>cstr p\<close> is the C string at \<open>p\<close>.

  \<open>strtok\<close> writes a \<open>NUL\<close> over the delimiter that ends a token. \<open>bra_mark False s\<close> is
  the buffer \<open>tmp_bra\<close> once the first loop has counted the declarations of the string
  \<open>s\<close>: each \<open><\<close> that follows a token has become \<open>NUL\<close>, the others stand.
\<close>

definition NUL :: char where
  "NUL = CHR 0x00"

definition cstr :: "string \<Rightarrow> string" where
  "cstr p = takeWhile (\<lambda>c. c \<noteq> NUL) p"

fun bra_mark :: "bool \<Rightarrow> string \<Rightarrow> string" where
  "bra_mark intok [] = [NUL]"
| "bra_mark intok (c # cs) =
     (if c = CHR ''<'' then (if intok then NUL else c) # bra_mark False cs
      else c # bra_mark True cs)"

text \<open>
  \<open>pos = strtok(bra_next, "|")\<close> followed by \<open>pos += strlen(pos) + 1\<close>: the token before
  the bar, and the pointer behind the character that ended it. When \<open>strtok\<close> finds no
  token it returns \<open>NULL\<close>, which \<open>atoi\<close> then dereferences.
\<close>

definition bra_head :: "string \<Rightarrow> (string \<times> string) behaviour" where
  "bra_head bra_next =
     (let p1 = dropWhile (\<lambda>c. c = CHR ''|'') bra_next in
      if p1 = [] then Undefined
      else if hd p1 = NUL then Undefined
      else
        (let tok = takeWhile (\<lambda>c. c \<noteq> CHR ''|'' \<and> c \<noteq> NUL) p1;
             r = dropWhile (\<lambda>c. c \<noteq> CHR ''|'' \<and> c \<noteq> NUL) p1
         in if r = [] then Undefined else Defined (tok, drop 1 r)))"

subsection \<open>\<open>markov_graph_init\<close>\<close>

text \<open>
  \<open>strtof\<close> and \<open>atoi\<close> belong to the C library and are parameters: \<open>strtof tok\<close> is the
  value and the unparsed rest (\<open>end\<close>) of the token. The memory that \<open>malloc\<close> returns for
  the rows is not initialised: \<open>uninit rx cx\<close> is what the cell \<open>tmp[rx][cx]\<close> holds
  before the code writes it. \<open>calloc\<close> and \<open>malloc\<close> are taken to succeed, and the two
  string copies to be made in full (the sizes asked of \<open>malloc\<close> for them are not
  modelled).

  The inner loop over the tokens of one row, from column \<open>cx\<close> with the running total
  \<open>prevtot\<close>. A token beyond column \<open>bracnt - 1\<close> is written outside the row.
\<close>

fun prob_loop ::
  "(string \<Rightarrow> real \<times> string) \<Rightarrow> nat \<Rightarrow> nat \<Rightarrow> string list \<Rightarrow> nat \<Rightarrow> real \<Rightarrow> markov_entry list
     \<Rightarrow> (diag + markov_entry list \<times> nat) behaviour" where
  "prob_loop strtof bracnt kx [] cx prevtot row = Defined (Inr (row, cx))"
| "prob_loop strtof bracnt kx (found # rest) cx prevtot row =
     (if cx \<ge> bracnt then Undefined
      else
        (let (p, end) = strtof found in
         if end \<noteq> [] then Defined (Inl (Invalid_value found))
         else if FloatLessThanZero p \<or> FloatGreaterThanOne p then Defined (Inl (Prob_range p))
         else
           (let b = (if FloatEqualZero p then prevtot else p + prevtot) in
            if FloatGreaterThanOne b then Defined (Inl (Cum_greater kx b))
            else prob_loop strtof bracnt kx rest (cx + 1) b
                   (row[cx := (row ! cx)\<lparr>prob := p, prob_bound := b\<rparr>]))))"

text \<open>
  One turn of the loop over the rows, for row \<open>kx\<close> with the pointer \<open>bra_next\<close> into
  \<open>tmp_bra\<close>: what it prints, and either the row as filled together with the new
  \<open>bra_next\<close>, or \<open>None\<close> where the code frees the graph and leaves with \<open>graph = NULL\<close>.
  The last check reads column \<open>bracnt - 1\<close> whether the tokens reached it or not.
\<close>

definition row_body ::
  "(string \<Rightarrow> real \<times> string) \<Rightarrow> (string \<Rightarrow> int) \<Rightarrow> nat \<Rightarrow> nat \<Rightarrow> string \<Rightarrow> markov_entry list
     \<Rightarrow> diag list \<times> (markov_entry list \<times> string) option behaviour" where
  "row_body strtof atoi bracnt kx bra_next tmp_kx =
     (case bra_head bra_next of
        Undefined \<Rightarrow> ([], Undefined)
      | Defined (tok, pos) \<Rightarrow>
          if pos = [] then ([], Undefined)
          else
            (let v = atoi tok;
                 row0 = tmp_kx[0 := (tmp_kx ! 0)\<lparr>val := v, len := v\<rparr>];
                 ket_prob_list = cstr pos;
                 bra_next' = drop (length ket_prob_list + 1) pos
             in case prob_loop strtof bracnt kx (strtok_list (CHR '','') ket_prob_list) 0 0 row0 of
                  Undefined \<Rightarrow> ([], Undefined)
                | Defined (Inl d) \<Rightarrow> ([d], Defined None)
                | Defined (Inr (row, cx)) \<Rightarrow>
                    (let w = (if cx \<noteq> bracnt then [Malformed_row bracnt ket_prob_list cx] else [])
                     in if FloatLessThanOne (prob_bound (row ! (bracnt - 1)))
                        then (w @ [Cum_less kx (prob_bound (row ! (bracnt - 1)))], Defined None)
                        else (w, Defined (Some (row, bra_next'))))))"

text \<open>
  The loop over the rows: \<open>todo\<close> rows are left, \<open>kx\<close> is the next one, \<open>msgs\<close> what has
  been printed so far. The result is the output on \<open>stderr\<close> and the matrix, or \<open>None\<close>
  for \<open>graph = NULL\<close>.
\<close>

fun rows_loop ::
  "(string \<Rightarrow> real \<times> string) \<Rightarrow> (string \<Rightarrow> int) \<Rightarrow> nat \<Rightarrow> nat \<Rightarrow> nat \<Rightarrow> string
     \<Rightarrow> markov_entry list list \<Rightarrow> diag list
     \<Rightarrow> diag list \<times> markov_entry list list option behaviour" where
  "rows_loop strtof atoi bracnt 0 kx bra_next tmp msgs = (msgs, Defined (Some tmp))"
| "rows_loop strtof atoi bracnt (Suc todo) kx bra_next tmp msgs =
     (case row_body strtof atoi bracnt kx bra_next (tmp ! kx) of
        (w, Undefined) \<Rightarrow> (msgs @ w, Undefined)
      | (w, Defined None) \<Rightarrow> (msgs @ w, Defined None)
      | (w, Defined (Some (row, bra_next'))) \<Rightarrow>
          rows_loop strtof atoi bracnt todo (kx + 1) bra_next' (tmp[kx := row]) (msgs @ w))"

text \<open>The last loops: every cell of column \<open>cx\<close> gets the length of state \<open>cx\<close>.\<close>

definition fill_values :: "nat \<Rightarrow> markov_entry list list \<Rightarrow> markov_entry list list" where
  "fill_values bracnt tmp =
     map (\<lambda>rx. map (\<lambda>cx. (tmp ! rx ! cx)\<lparr>val := len (tmp ! cx ! 0)\<rparr>) [0..<bracnt]) [0..<bracnt]"

definition markov_graph_init ::
  "(string \<Rightarrow> real \<times> string) \<Rightarrow> (string \<Rightarrow> int) \<Rightarrow> (nat \<Rightarrow> nat \<Rightarrow> markov_entry) \<Rightarrow> string
     \<Rightarrow> diag list \<times> markov_graph option behaviour" where
  "markov_graph_init strtof atoi uninit braket_option =
     (let tmp_bra = deblank braket_option;
          bracnt = length (strtok_list (CHR ''<'') tmp_bra)
      in if bracnt > 0 then
           (case rows_loop strtof atoi bracnt bracnt 0
                   (dropWhile (\<lambda>c. c = CHR ''<'') (bra_mark False tmp_bra))
                   (map (\<lambda>rx. map (uninit rx) [0..<bracnt]) [0..<bracnt]) [] of
              (msgs, Undefined) \<Rightarrow> (msgs, Undefined)
            | (msgs, Defined None) \<Rightarrow> (msgs, Defined None)
            | (msgs, Defined (Some tmp)) \<Rightarrow>
                (msgs, Defined (Some \<lparr>count = bracnt, seed = 0, cur_row = 0, cur_col = 0,
                                       entrys = fill_values bracnt tmp\<rparr>)))
         else ([], Defined (Some \<lparr>count = 0, seed = 0, cur_row = 0, cur_col = 0, entrys = []\<rparr>)))"

subsection \<open>\<open>markov_graph_next\<close> and \<open>markov_graph_set_seed\<close>\<close>

text \<open>
  The first loop, \<open>while ((ix < count) && (row[ix++].prob_bound < pull_rand))\<close>: the
  increment is part of the test, so the loop leaves \<open>ix\<close> one past the column whose
  bound stopped it, or at \<open>count\<close> when no bound did.
\<close>

function fwd_scan :: "markov_entry list \<Rightarrow> nat \<Rightarrow> real \<Rightarrow> nat \<Rightarrow> nat behaviour" where
  "fwd_scan row n pull_rand ix =
     (if ix < n then
        (if ix < length row then
           (if prob_bound (row ! ix) < pull_rand then fwd_scan row n pull_rand (ix + 1)
            else Defined (ix + 1))
         else Undefined)
      else Defined ix)"
  by pat_completeness auto
termination
  by (relation "measure (\<lambda>(row, n, pull_rand, ix). n - ix)") auto

declare fwd_scan.simps [simp del]

text \<open>
  The second loop, \<open>while (FloatEqualZero(row[--ix].prob))\<close>, has no lower bound: from
  \<open>ix = 0\<close> it reads \<open>row[-1]\<close>.
\<close>

fun back_scan :: "markov_entry list \<Rightarrow> nat \<Rightarrow> nat behaviour" where
  "back_scan row 0 = Undefined"
| "back_scan row (Suc j) =
     (if j < length row then
        (if FloatEqualZero (prob (row ! j)) then back_scan row j else Defined j)
      else Undefined)"

text \<open>The body of \<open>markov_graph_next\<close> for a given draw \<open>pull_rand\<close>.\<close>

definition markov_graph_next_draw :: "markov_graph \<Rightarrow> real \<Rightarrow> (int \<times> markov_graph) behaviour" where
  "markov_graph_next_draw graph pull_rand =
     (if cur_row graph < length (entrys graph) then
        (case fwd_scan (entrys graph ! cur_row graph) (count graph) pull_rand 0 of
           Undefined \<Rightarrow> Undefined
         | Defined ix1 \<Rightarrow>
             (case back_scan (entrys graph ! cur_row graph) ix1 of
                Undefined \<Rightarrow> Undefined
              | Defined ix \<Rightarrow>
                  if ix < length (entrys graph) \<and> 0 < length (entrys graph ! ix)
                  then Defined (len (entrys graph ! ix ! 0), graph\<lparr>cur_row := ix\<rparr>)
                  else Undefined))
      else Undefined)"

text \<open>
  \<open>rand\<close> and \<open>srand\<close> work on a state of the C library, of some type \<open>'r\<close>: \<open>srand seed\<close>
  is the state after seeding, \<open>rand\<close> returns a number between 0 and \<open>RAND_MAX\<close> and the
  next state. The world of the sampler is the graph and that state.
\<close>

definition markov_graph_next ::
  "('r \<Rightarrow> nat \<times> 'r) \<Rightarrow> nat \<Rightarrow> markov_graph \<times> 'r \<Rightarrow> (int \<times> markov_graph \<times> 'r) behaviour" where
  "markov_graph_next rand RAND_MAX w =
     (let (graph, rng) = w;
          (x, rng') = rand rng;
          pull_rand = real x / real RAND_MAX
      in case markov_graph_next_draw graph pull_rand of
           Undefined \<Rightarrow> Undefined
         | Defined (l, graph') \<Rightarrow> Defined (l, graph', rng'))"

definition markov_graph_set_seed ::
  "(int \<Rightarrow> 'r) \<Rightarrow> markov_graph \<times> 'r \<Rightarrow> int \<Rightarrow> markov_graph \<times> 'r" where
  "markov_graph_set_seed srand w sd = ((fst w)\<lparr>seed := sd\<rparr>, srand sd)"

text \<open>
  \<open>k\<close> calls of \<open>markov_graph_next\<close> in a row: the states and labels they produce, in
  order, and whether the run stayed defined.
\<close>

fun sample_run ::
  "('r \<Rightarrow> nat \<times> 'r) \<Rightarrow> nat \<Rightarrow> nat \<Rightarrow> markov_graph \<times> 'r \<Rightarrow> (nat \<times> int) list \<times> bool" where
  "sample_run rand RAND_MAX 0 w = ([], True)"
| "sample_run rand RAND_MAX (Suc k) w =
     (case markov_graph_next rand RAND_MAX w of
        Undefined \<Rightarrow> ([], False)
      | Defined (l, graph', rng') \<Rightarrow>
          (let (out, ok) = sample_run rand RAND_MAX k (graph', rng')
           in ((cur_row graph', l) # out, ok)))"

subsection \<open>Decimal numerals, for the examples\<close>









subsection \<open>What a built graph should satisfy\<close>

text \<open>
  These predicates follow the words of the specification, not the code. A row is valid
  when every probability lies between 0 and 1 (up to the tolerance above 1 that the
  range check of the code allows), the bounds do not decrease along the row, and the
  last bound is 1 within the tolerance.
\<close>

definition row_valid :: "markov_entry list \<Rightarrow> bool" where
  "row_valid row =
     (list_all (\<lambda>e. 0 \<le> prob e \<and> prob e \<le> 1 + FLOATTOLERANCE) row \<and>
      sorted (map prob_bound row) \<and>
      row \<noteq> [] \<and> \<bar>prob_bound (last row) - 1\<bar> \<le> FLOATTOLERANCE)"

text \<open>The condition that each diagnostic reports, on the values it prints.\<close>

fun diag_cause :: "(string \<Rightarrow> real \<times> string) \<Rightarrow> diag \<Rightarrow> bool" where
  "diag_cause strtof (Invalid_value tok) = (snd (strtof tok) \<noteq> [])"
| "diag_cause strtof (Prob_range p) = (p < 0 \<or> 1 + FLOATTOLERANCE < p)"
| "diag_cause strtof (Cum_greater kx b) = (1 + FLOATTOLERANCE < b)"
| "diag_cause strtof (Malformed_row n pos cx) = (cx \<noteq> n)"
| "diag_cause strtof (Cum_less kx b) = (b < 1 - FLOATTOLERANCE)"


text \<open>
  What \<open>markov_graph_init\<close> has printed, \<open>w\<close>, fits the way it ended: every line is
  justified, only the last line can be fatal, and it is fatal exactly when the
  construction failed.
\<close>

definition diags_ok :: "(string \<Rightarrow> real \<times> string) \<Rightarrow> diag list \<Rightarrow> bool \<Rightarrow> bool" where
  "diags_ok S w failed =
     (list_all (diag_cause S) w \<and> list_all (\<lambda>d. \<not> fatal_diag d) (butlast w) \<and>
      (failed = (w \<noteq> [] \<and> fatal_diag (last w))))"

section \<open>Properties of the transfer loops\<close>

lemma readn_loop_prefix:
  "list_all moves_or_eintr pre \<Longrightarrow> offered pre < nleft \<Longrightarrow>
   readn_loop inLen nleft (pre @ sc) = readn_loop inLen (nleft - offered pre) sc"
proof (induction pre arbitrary: nleft)
  case Nil
  then show ?case by simp
next
  case (Cons x pre)
  show ?case
  proof (cases x)
    case (Xfer k)
    with Cons.prems have k: "0 < k" "k + offered pre < nleft" by simp_all
    then have "readn_loop inLen nleft ((x # pre) @ sc) = readn_loop inLen (nleft - k) (pre @ sc)"
      using Xfer by (simp add: min_def Let_def)
    also have "\<dots> = readn_loop inLen (nleft - k - offered pre) sc"
      using Cons.IH [of "nleft - k"] Cons.prems k by simp
    finally show ?thesis using Xfer by simp
  next
    case (Fail e)
    with Cons.prems have e: "e = EINTR" "offered pre < nleft" by simp_all
    then show ?thesis using Fail Cons.IH [of nleft] Cons.prems by simp
  qed
qed





text \<open>
  C6. A stream that delivers \<open>m < n\<close> bytes (in any number of reads, with any number of
  interrupted reads in between) and then reaches its end makes \<open>readn\<close> return \<open>m\<close>;
  a read interrupted by \<open>EINTR\<close> is repeated with the same \<open>nleft\<close> and leaves the
  result as it would be without it; any other error of \<open>read\<close> makes \<open>readn\<close> return
  \<open>SOCKET_ERROR\<close>.
\<close>

theorem readn_eof_eintr_error:
  assumes "list_all moves_or_eintr pre" and "offered pre = m" and "m < n"
  shows "readn n (pre @ Xfer 0 # rest) = Some (Returned (int m, rest)) \<and>
         readn n (Fail EINTR # sc) = readn n sc \<and>
         (e \<noteq> EINTR \<longrightarrow> readn n (pre @ Fail e # rest) = Some (Returned (SOCKET_ERROR, rest)))"
  using assms by (simp add: readn_def readn_loop_prefix)

theorem readn_eof_eintr_error_witness:
  "list_all moves_or_eintr [Xfer 2, Fail EINTR, Xfer 1] \<and>
   offered [Xfer 2, Fail EINTR, Xfer 1] = 3 \<and> (3::nat) < 8 \<and>
   readn 8 ([Xfer 2, Fail EINTR, Xfer 1] @ Xfer 0 # [Xfer 7]) = Some (Returned (3, [Xfer 7])) \<and>
   readn 8 (Fail EINTR # [Xfer 8]) = readn 8 [Xfer 8] \<and>
   ECONNRESET \<noteq> EINTR \<and>
   readn 8 ([Xfer 2, Fail EINTR, Xfer 1] @ Fail ECONNRESET # [Xfer 7])
     = Some (Returned (SOCKET_ERROR, [Xfer 7]))"
  using readn_eof_eintr_error
    [of "[Xfer 2, Fail EINTR, Xfer 1]" 3 8 "[Xfer 7]" "[Xfer 8]" ECONNRESET]
  by simp



text \<open>
  C9, as stated, fails: the fallback is one \<open>write\<close>, and a \<open>write\<close> that moves 3 of 10
  bytes without any error makes \<open>writemsg_delay_tos\<close> return 3.
\<close>

theorem writemsg_delay_tos_short_write:
  "writemsg_delay_tos 10 5 (- 1) [Xfer 3] = Some (3, []) \<and> (3::int) \<noteq> 10"
  by simp

text \<open>
  C9, amended. Without \<open>SO_TXTIME\<close>, \<open>writemsg_delay_tos\<close> returns the result of exactly
  one \<open>write\<close> of the buffer: the number of bytes that call moved (the whole length \<open>n\<close>
  when the kernel takes it all), or \<open>SOCKET_ERROR\<close> on any error of the call; the delay
  and the TOS value have no influence.
\<close>

theorem writemsg_delay_tos_single_write:
  "writemsg_delay_tos n d t (Xfer k # sc) = Some (min (int k) n, sc) \<and>
   writemsg_delay_tos n d t (Fail e # sc) = Some (SOCKET_ERROR, sc) \<and>
   (n \<le> int k \<longrightarrow> writemsg_delay_tos n d t (Xfer k # sc) = Some (n, sc)) \<and>
   writemsg_delay_tos n d t sc' = writemsg_delay_tos n 0 (- 1) sc'"
proof -
  have "writemsg_delay_tos n d t sc' = writemsg_delay_tos n 0 (- 1) sc'"
    by (cases "(n, d, t, sc')" rule: writemsg_delay_tos.cases) simp_all
  then show ?thesis by simp
qed

theorem writemsg_delay_tos_single_write_witness:
  "writemsg_delay_tos 10 5 7 (Xfer 4 # [Xfer 6]) = Some (4, [Xfer 6]) \<and>
   writemsg_delay_tos 10 5 7 (Fail EAGAIN # [Xfer 6]) = Some (SOCKET_ERROR, [Xfer 6]) \<and>
   (10::int) \<le> int 12 \<and>
   writemsg_delay_tos 10 5 7 (Xfer 12 # [Xfer 6]) = Some (10, [Xfer 6]) \<and>
   writemsg_delay_tos 10 5 7 [Xfer 12] = writemsg_delay_tos 10 0 (- 1) [Xfer 12]"
  using writemsg_delay_tos_single_write [of 10 5 7 4 "[Xfer 6]" EAGAIN "[Xfer 12]"]
    writemsg_delay_tos_single_write [of 10 5 7 12 "[Xfer 6]" EAGAIN "[Xfer 12]"]
  by simp








section \<open>Properties of the transition graph\<close>

subsection \<open>The loop over the tokens of a row\<close>

lemmas float_defs = FloatEqualZero_def FloatLessThanZero_def FloatGreaterThanOne_def FloatLessThanOne_def

lemma prob_loop_Inl:
  "prob_loop S n kx toks cx prev row = Defined (Inl d) \<Longrightarrow> fatal_diag d \<and> diag_cause S d"
proof (induction toks arbitrary: cx prev row)
  case Nil
  then show ?case by simp
next
  case (Cons tok toks)
  obtain p e where pe: "S tok = (p, e)" by (cases "S tok")
  from Cons.prems pe show ?case
    by (auto simp: Let_def float_defs split: if_splits dest: Cons.IH)
qed


lemma prob_loop_Inr:
  "prob_loop S n kx toks cx prev row = Defined (Inr (row', cx')) \<Longrightarrow> length row = n \<Longrightarrow> cx \<le> n \<Longrightarrow>
   length row' = n \<and> cx' = cx + length toks \<and> cx' \<le> n \<and>
   (\<forall>j. j < cx \<or> cx' \<le> j \<longrightarrow> row' ! j = row ! j) \<and>
   (\<forall>j. len (row' ! j) = len (row ! j) \<and> val (row' ! j) = val (row ! j)) \<and>
   (\<forall>j. cx \<le> j \<and> j < cx' \<longrightarrow>
        0 \<le> prob (row' ! j) \<and> prob (row' ! j) \<le> 1 + FLOATTOLERANCE \<and>
        prev \<le> prob_bound (row' ! j) \<and> prob_bound (row' ! j) \<le> 1 + FLOATTOLERANCE) \<and>
   (\<forall>i j. cx \<le> i \<and> i \<le> j \<and> j < cx' \<longrightarrow> prob_bound (row' ! i) \<le> prob_bound (row' ! j))"
proof (induction toks arbitrary: cx prev row)
  case Nil
  then show ?case by simp
next
  case (Cons tok toks)
  obtain p e where pe: "S tok = (p, e)" by (cases "S tok")
  define b where "b = (if FloatEqualZero p then prev else p + prev)"
  define row1 where "row1 = row[cx := (row ! cx)\<lparr>prob := p, prob_bound := b\<rparr>]"
  from Cons.prems(1) pe have cxn: "cx < n" and e: "e = []"
    and p: "0 \<le> p" "p \<le> 1 + FLOATTOLERANCE" and b: "b \<le> 1 + FLOATTOLERANCE"
    and rec: "prob_loop S n kx toks (cx + 1) b row1 = Defined (Inr (row', cx'))"
    by (auto simp: Let_def float_defs b_def row1_def split: if_splits)
  have len1: "length row1 = n" using Cons.prems(2) by (simp add: row1_def)
  from Cons.IH [OF rec len1] cxn have IH:
    "length row' = n" "cx' = cx + 1 + length toks" "cx' \<le> n"
    "\<And>j. j < cx + 1 \<or> cx' \<le> j \<Longrightarrow> row' ! j = row1 ! j"
    "\<And>j. len (row' ! j) = len (row1 ! j) \<and> val (row' ! j) = val (row1 ! j)"
    "\<And>j. cx + 1 \<le> j \<Longrightarrow> j < cx' \<Longrightarrow>
        0 \<le> prob (row' ! j) \<and> prob (row' ! j) \<le> 1 + FLOATTOLERANCE \<and>
        b \<le> prob_bound (row' ! j) \<and> prob_bound (row' ! j) \<le> 1 + FLOATTOLERANCE"
    "\<And>i j. cx + 1 \<le> i \<Longrightarrow> i \<le> j \<Longrightarrow> j < cx' \<Longrightarrow> prob_bound (row' ! i) \<le> prob_bound (row' ! j)"
    by auto
  have prevb: "prev \<le> b" using p(1) by (simp add: b_def)
  have at_cx: "row' ! cx = (row ! cx)\<lparr>prob := p, prob_bound := b\<rparr>"
    using IH(4) [of cx] cxn Cons.prems(2) by (simp add: row1_def)
  have other: "\<And>j. j \<noteq> cx \<Longrightarrow> row1 ! j = row ! j" by (simp add: row1_def)
  have fields: "\<And>j. len (row1 ! j) = len (row ! j) \<and> val (row1 ! j) = val (row ! j)"
    using cxn Cons.prems(2) by (simp add: row1_def nth_list_update)
  have cell: "\<And>j. cx \<le> j \<Longrightarrow> j < cx' \<Longrightarrow>
        0 \<le> prob (row' ! j) \<and> prob (row' ! j) \<le> 1 + FLOATTOLERANCE \<and>
        prev \<le> prob_bound (row' ! j) \<and> prob_bound (row' ! j) \<le> 1 + FLOATTOLERANCE \<and>
        b \<le> prob_bound (row' ! j)"
  proof -
    fix j assume j: "cx \<le> j" "j < cx'"
    show "0 \<le> prob (row' ! j) \<and> prob (row' ! j) \<le> 1 + FLOATTOLERANCE \<and>
        prev \<le> prob_bound (row' ! j) \<and> prob_bound (row' ! j) \<le> 1 + FLOATTOLERANCE \<and>
        b \<le> prob_bound (row' ! j)"
    proof (cases "j = cx")
      case True
      then show ?thesis using at_cx p b prevb by simp
    next
      case False
      with j have "cx + 1 \<le> j" by simp
      from IH(6) [OF this j(2)] prevb show ?thesis by simp
    qed
  qed
  have mono: "\<And>i j. cx \<le> i \<Longrightarrow> i \<le> j \<Longrightarrow> j < cx' \<Longrightarrow> prob_bound (row' ! i) \<le> prob_bound (row' ! j)"
  proof -
    fix i j assume ij: "cx \<le> i" "i \<le> j" "j < cx'"
    show "prob_bound (row' ! i) \<le> prob_bound (row' ! j)"
    proof (cases "i = cx")
      case True
      then show ?thesis using cell [of j] ij at_cx by simp
    next
      case False
      with ij have "cx + 1 \<le> i" by simp
      from IH(7) [OF this ij(2,3)] show ?thesis .
    qed
  qed
  show ?case
  proof (intro conjI allI impI)
    show "length row' = n" by (rule IH(1))
    show "cx' = cx + length (tok # toks)" using IH(2) by simp
    show "cx' \<le> n" by (rule IH(3))
    show "row' ! j = row ! j" if "j < cx \<or> cx' \<le> j" for j
      using that IH(4) [of j] other [of j] IH(2) by auto
    show "len (row' ! j) = len (row ! j)" for j using IH(5) [of j] fields [of j] by simp
    show "val (row' ! j) = val (row ! j)" for j using IH(5) [of j] fields [of j] by simp
    show "0 \<le> prob (row' ! j)" if "cx \<le> j \<and> j < cx'" for j using cell [of j] that by simp
    show "prob (row' ! j) \<le> 1 + FLOATTOLERANCE" if "cx \<le> j \<and> j < cx'" for j using cell [of j] that by simp
    show "prev \<le> prob_bound (row' ! j)" if "cx \<le> j \<and> j < cx'" for j using cell [of j] that by simp
    show "prob_bound (row' ! j) \<le> 1 + FLOATTOLERANCE" if "cx \<le> j \<and> j < cx'" for j using cell [of j] that by simp
    show "prob_bound (row' ! i) \<le> prob_bound (row' ! j)" if "cx \<le> i \<and> i \<le> j \<and> j < cx'" for i j
      using mono [of i j] that by simp
  qed
qed

subsection \<open>The loop over the rows\<close>

lemma row_body_diags:
  "row_body S A n kx bra trow = (w, res) \<Longrightarrow> diags_ok S w (res = Defined None)"
  unfolding row_body_def diags_ok_def
  by (auto simp: Let_def FloatLessThanOne_def split: behaviour.splits prod.splits if_splits sum.splits
      dest: prob_loop_Inl)

lemma row_body_row:
  assumes "row_body S A n kx bra trow = (w, Defined (Some (row, bra')))"
    and "length trow = n" and "0 < n"
  shows "length row = n \<and> (w = [] \<longrightarrow> row_valid row) \<and> list_all (\<lambda>d. \<not> fatal_diag d) w"
proof -
  from assms(1) obtain tok pos cx where
    pl: "prob_loop S n kx (strtok_list (CHR '','') (cstr pos)) 0 0
           (trow[0 := (trow ! 0)\<lparr>val := A tok, len := A tok\<rparr>]) = Defined (Inr (row, cx))"
    and w: "w = (if cx \<noteq> n then [Malformed_row n (cstr pos) cx] else [])"
    and fin: "\<not> FloatLessThanOne (prob_bound (row ! (n - 1)))"
    unfolding row_body_def
    by (auto simp: Let_def split: behaviour.splits prod.splits if_splits sum.splits)
  from prob_loop_Inr [OF pl] assms(2) have inv:
    "length row = n" "cx \<le> n"
    "\<And>j. j < cx \<Longrightarrow> 0 \<le> prob (row ! j) \<and> prob (row ! j) \<le> 1 + FLOATTOLERANCE \<and>
        prob_bound (row ! j) \<le> 1 + FLOATTOLERANCE"
    "\<And>i j. i \<le> j \<Longrightarrow> j < cx \<Longrightarrow> prob_bound (row ! i) \<le> prob_bound (row ! j)"
    by auto
  have "row_valid row" if "w = []"
  proof -
    from that w have cx: "cx = n" by (simp split: if_splits)
    have ne: "row \<noteq> []" using inv(1) assms(3) by auto
    have "list_all (\<lambda>e. 0 \<le> prob e \<and> prob e \<le> 1 + FLOATTOLERANCE) row"
      using inv(1,3) cx by (simp add: list_all_length)
    moreover have "sorted (map prob_bound row)"
      using inv(1,4) cx by (simp add: sorted_iff_nth_mono)
    moreover have "\<bar>prob_bound (last row) - 1\<bar> \<le> FLOATTOLERANCE"
    proof -
      have l: "last row = row ! (n - 1)" using ne inv(1) by (simp add: last_conv_nth)
      from inv(3) [of "n - 1"] cx assms(3) have "prob_bound (row ! (n - 1)) \<le> 1 + FLOATTOLERANCE" by simp
      with fin l show ?thesis by (simp add: FloatLessThanOne_def abs_le_iff)
    qed
    ultimately show ?thesis using ne by (simp add: row_valid_def)
  qed
  then show ?thesis using inv(1) w by simp
qed

lemma diags_ok_append:
  "list_all (\<lambda>d. \<not> fatal_diag d) w \<Longrightarrow> list_all (diag_cause S) w \<Longrightarrow> diags_ok S ws f \<Longrightarrow>
   diags_ok S (w @ ws) f"
  unfolding diags_ok_def
  by (cases "ws = []") (auto simp: butlast_append list_all_iff dest: in_set_butlastD)

lemma rows_loop_diags:
  "rows_loop S A n todo kx bra tmp msgs = (msgs', res) \<Longrightarrow>
   \<exists>ws. msgs' = msgs @ ws \<and> diags_ok S ws (res = Defined None)"
proof (induction todo arbitrary: kx bra tmp msgs)
  case 0
  then show ?case by (auto simp: diags_ok_def)
next
  case (Suc todo)
  obtain w r where rb: "row_body S A n kx bra (tmp ! kx) = (w, r)"
    by (cases "row_body S A n kx bra (tmp ! kx)")
  note d = row_body_diags [OF rb]
  show ?case
  proof (cases r)
    case Undefined
    with Suc.prems rb d show ?thesis by auto
  next
    case (Defined o1)
    show ?thesis
    proof (cases o1)
      case None
      with Suc.prems rb d Defined show ?thesis by auto
    next
      case (Some a)
      obtain row bra' where a: "a = (row, bra')" by (cases a)
      from Suc.prems rb Defined Some a
      have "rows_loop S A n todo (kx + 1) bra' (tmp[kx := row]) (msgs @ w) = (msgs', res)" by simp
      from Suc.IH [OF this] obtain ws where
        ws: "msgs' = (msgs @ w) @ ws" "diags_ok S ws (res = Defined None)" by blast
      from d Defined Some have nf: "list_all (\<lambda>d. \<not> fatal_diag d) w" "list_all (diag_cause S) w"
        unfolding diags_ok_def by (cases "w = []"; cases w rule: rev_cases; auto simp: list_all_iff)+
      from diags_ok_append [OF nf ws(2)] ws(1) show ?thesis by auto
    qed
  qed
qed

lemma rows_loop_Some:
  "rows_loop S A n todo kx bra tmp msgs = (msgs', Defined (Some tmp')) \<Longrightarrow>
   kx + todo = n \<Longrightarrow> length tmp = n \<Longrightarrow> (\<forall>r < n. length (tmp ! r) = n) \<Longrightarrow>
   length tmp' = n \<and> (\<forall>r < n. length (tmp' ! r) = n) \<and> (\<forall>r < kx. tmp' ! r = tmp ! r) \<and>
   (msgs' = msgs \<longrightarrow> (\<forall>r. kx \<le> r \<and> r < n \<longrightarrow> row_valid (tmp' ! r)))"
proof (induction todo arbitrary: kx bra tmp msgs)
  case 0
  then show ?case by auto
next
  case (Suc todo)
  from Suc.prems(2) have kxn: "kx < n" by simp
  obtain w r where rb: "row_body S A n kx bra (tmp ! kx) = (w, r)"
    by (cases "row_body S A n kx bra (tmp ! kx)")
  with Suc.prems(1) obtain row bra' where r: "r = Defined (Some (row, bra'))"
    and rec: "rows_loop S A n todo (kx + 1) bra' (tmp[kx := row]) (msgs @ w) = (msgs', Defined (Some tmp'))"
    by (auto split: behaviour.splits option.splits)
  from Suc.prems(4) kxn have "length (tmp ! kx) = n" by simp
  from row_body_row [OF rb [unfolded r] this] kxn
  have row: "length row = n" "w = [] \<Longrightarrow> row_valid row" by auto
  have shape: "length (tmp[kx := row]) = n" "\<forall>r < n. length (tmp[kx := row] ! r) = n"
    using Suc.prems(3,4) row(1) kxn by (auto simp: nth_list_update)
  from Suc.IH [OF rec _ shape] Suc.prems(2)
  have IH: "length tmp' = n" "\<forall>r < n. length (tmp' ! r) = n"
    "\<forall>r < kx + 1. tmp' ! r = tmp[kx := row] ! r"
    "msgs' = msgs @ w \<Longrightarrow> (\<forall>r. kx + 1 \<le> r \<and> r < n \<longrightarrow> row_valid (tmp' ! r))"
    by auto
  from rows_loop_diags [OF rec] obtain ws where ws: "msgs' = (msgs @ w) @ ws" by blast
  have at_kx: "tmp' ! kx = row" using IH(3) Suc.prems(3) kxn by simp
  have valid: "row_valid (tmp' ! r)" if eq: "msgs' = msgs" and r: "kx \<le> r" "r < n" for r
  proof -
    from eq ws have w: "w = []" and "msgs' = msgs @ w" by simp_all
    show ?thesis
    proof (cases "r = kx")
      case True
      then show ?thesis using at_kx row(2) [OF w] by simp
    next
      case False
      with r have "kx + 1 \<le> r" by simp
      with IH(4) [OF \<open>msgs' = msgs @ w\<close>] r(2) show ?thesis by simp
    qed
  qed
  show ?case
    using IH(1,2,3) valid by (auto simp: nth_list_update)
qed

subsection \<open>The graph that \<open>markov_graph_init\<close> returns\<close>

lemma fill_values_shape:
  "length (fill_values n tmp) = n \<and> list_all (\<lambda>row. length row = n) (fill_values n tmp)"
  by (simp add: fill_values_def list_all_iff)

lemma fill_values_nth:
  "rx < n \<Longrightarrow> cx < n \<Longrightarrow> fill_values n tmp ! rx ! cx = (tmp ! rx ! cx)\<lparr>val := len (tmp ! cx ! 0)\<rparr>"
  by (simp add: fill_values_def)

lemma fill_values_row_valid:
  assumes "rx < n" and "length (tmp ! rx) = n" and "row_valid (tmp ! rx)"
  shows "row_valid (fill_values n tmp ! rx)"
proof -
  let ?row = "fill_values n tmp ! rx"
  have row: "?row = map (\<lambda>cx. (tmp ! rx ! cx)\<lparr>val := len (tmp ! cx ! 0)\<rparr>) [0..<n]"
    using assms(1) by (simp add: fill_values_def)
  have pb: "map prob_bound ?row = map prob_bound (tmp ! rx)"
    unfolding row using assms(2) by (simp add: list_eq_iff_nth_eq)
  have pr: "map prob ?row = map prob (tmp ! rx)"
    unfolding row using assms(2) by (simp add: list_eq_iff_nth_eq)
  from assms(3) have ne: "tmp ! rx \<noteq> []" by (simp add: row_valid_def)
  with assms(2) have n: "0 < n" by auto
  have ne': "?row \<noteq> []" unfolding row using n by simp
  have "list_all (\<lambda>e. 0 \<le> prob e \<and> prob e \<le> 1 + FLOATTOLERANCE) ?row
        = list_all (\<lambda>p. 0 \<le> p \<and> p \<le> 1 + FLOATTOLERANCE) (map prob ?row)"
    by (simp add: list_all_iff)
  also have "\<dots> = list_all (\<lambda>e. 0 \<le> prob e \<and> prob e \<le> 1 + FLOATTOLERANCE) (tmp ! rx)"
    unfolding pr by (simp add: list_all_iff)
  finally have a: "list_all (\<lambda>e. 0 \<le> prob e \<and> prob e \<le> 1 + FLOATTOLERANCE) ?row"
    using assms(3) by (simp add: row_valid_def)
  have "prob_bound (last ?row) = last (map prob_bound ?row)" using ne' by (simp add: last_map)
  also have "\<dots> = prob_bound (last (tmp ! rx))" unfolding pb using ne by (simp add: last_map)
  finally have b: "prob_bound (last ?row) = prob_bound (last (tmp ! rx))" .
  show ?thesis
    using assms(3) a b pb ne' unfolding row_valid_def by simp
qed

lemma init_graph:
  assumes "markov_graph_init S A U s = (msgs, Defined (Some g))"
  shows "count g = length (strtok_list (CHR ''<'') (deblank s)) \<and>
         length (entrys g) = count g \<and>
         list_all (\<lambda>row. length row = count g) (entrys g) \<and>
         cur_row g = 0 \<and>
         (\<forall>rx < count g. \<forall>cx < count g. val (entrys g ! rx ! cx) = len (entrys g ! cx ! 0)) \<and>
         (msgs = [] \<longrightarrow> list_all row_valid (entrys g))"
proof -
  define n where "n = length (strtok_list (CHR ''<'') (deblank s))"
  show ?thesis
  proof (cases "0 < n")
    case False
    with assms show ?thesis by (auto simp: markov_graph_init_def Let_def n_def)
  next
    case True
    define tmp0 where "tmp0 = map (\<lambda>rx. map (U rx) [0..<n]) [0..<n]"
    define bra0 where "bra0 = dropWhile (\<lambda>c. c = CHR ''<'') (bra_mark False (deblank s))"
    from assms True obtain tmp where
      rl: "rows_loop S A n n 0 bra0 tmp0 [] = (msgs, Defined (Some tmp))"
      and g: "g = \<lparr>count = n, seed = 0, cur_row = 0, cur_col = 0, entrys = fill_values n tmp\<rparr>"
      unfolding markov_graph_init_def Let_def n_def [symmetric] tmp0_def [symmetric] bra0_def [symmetric]
      by (auto split: prod.splits behaviour.splits option.splits)
    have "length tmp0 = n" "\<forall>r < n. length (tmp0 ! r) = n" by (simp_all add: tmp0_def)
    from rows_loop_Some [OF rl _ this]
    have tmp: "length tmp = n" "\<forall>r < n. length (tmp ! r) = n"
      "msgs = [] \<Longrightarrow> (\<forall>r. r < n \<longrightarrow> row_valid (tmp ! r))" by auto
    have "list_all row_valid (fill_values n tmp)" if "msgs = []"
      unfolding list_all_length
      using tmp(2) tmp(3) [OF that] fill_values_shape [of n tmp] fill_values_row_valid [of _ n tmp]
      by simp
    then show ?thesis
      using fill_values_shape [of n tmp] by (simp add: g n_def [symmetric] fill_values_nth)
  qed
qed


subsection \<open>Sampling\<close>

lemma back_scan_Defined:
  "back_scan row ix = Defined j \<Longrightarrow>
   j < ix \<and> \<not> FloatEqualZero (prob (row ! j)) \<and>
   (\<forall>i. j < i \<and> i < ix \<longrightarrow> FloatEqualZero (prob (row ! i)))"
proof (induction ix)
  case 0
  then show ?case by simp
next
  case (Suc k)
  show ?case
  proof (cases "FloatEqualZero (prob (row ! k))")
    case True
    with Suc.prems have "back_scan row k = Defined j" by (simp split: if_splits)
    from Suc.IH [OF this] True show ?thesis by (auto simp: less_Suc_eq)
  next
    case False
    with Suc.prems have "j = k" by (simp split: if_splits)
    with False show ?thesis by auto
  qed
qed

lemma markov_graph_next_draw_Defined:
  assumes "markov_graph_next_draw g r = Defined (l, g')"
  shows "\<not> FloatEqualZero (prob (entrys g ! cur_row g ! cur_row g')) \<and>
         l = len (entrys g ! cur_row g' ! 0) \<and> g' = g\<lparr>cur_row := cur_row g'\<rparr>"
proof -
  from assms obtain ix1 ix where
    c: "cur_row g < length (entrys g)"
    and b: "back_scan (entrys g ! cur_row g) ix1 = Defined ix"
    and r: "l = len (entrys g ! ix ! 0)" "g' = g\<lparr>cur_row := ix\<rparr>"
    unfolding markov_graph_next_draw_def
    by (simp split: if_splits behaviour.splits)
  from back_scan_Defined [OF b] r show ?thesis by simp
qed

lemma markov_graph_next_draw_cong:
  assumes "entrys g1 = entrys g2" and "count g1 = count g2" and "cur_row g1 = cur_row g2"
  shows "markov_graph_next_draw g2 r =
           (case markov_graph_next_draw g1 r of
              Undefined \<Rightarrow> Undefined
            | Defined (l, g') \<Rightarrow> Defined (l, g2\<lparr>cur_row := cur_row g'\<rparr>))"
  unfolding markov_graph_next_draw_def assms(1) [symmetric] assms(2) [symmetric]
    assms(3) [symmetric]
  by (simp split: behaviour.split)

lemma sample_run_cong:
  "entrys g1 = entrys g2 \<Longrightarrow> count g1 = count g2 \<Longrightarrow> cur_row g1 = cur_row g2 \<Longrightarrow>
   sample_run rand M k (g1, rng) = sample_run rand M k (g2, rng)"
proof (induction k arbitrary: g1 g2 rng)
  case 0
  then show ?case by simp
next
  case (Suc k)
  obtain x rng' where x: "rand rng = (x, rng')" by (cases "rand rng")
  note c = markov_graph_next_draw_cong [OF Suc.prems, of "real x / real M"]
  show ?case
  proof (cases "markov_graph_next_draw g1 (real x / real M)")
    case Undefined
    with c show ?thesis by (simp add: markov_graph_next_def x)
  next
    case (Defined a)
    obtain l g' where a: "a = (l, g')" by (cases a)
    from markov_graph_next_draw_Defined [OF Defined [unfolded a]]
    have g': "g' = g1\<lparr>cur_row := cur_row g'\<rparr>" by simp
    have "sample_run rand M k (g', rng') = sample_run rand M k (g2\<lparr>cur_row := cur_row g'\<rparr>, rng')"
      by (subst g', rule Suc.IH) (simp_all add: Suc.prems)
    with c Defined a show ?thesis by (simp add: markov_graph_next_def x)
  qed
qed


text \<open>
  On a graph built without any warning, where every cell was parsed, a bound is 0 as
  long as all probabilities up to its column are negligible. So for a draw above 0 the
  second loop of \<open>markov_graph_next\<close> meets a column whose probability is not
  negligible before it leaves the row: from every state the call is defined and selects
  such a column. Only a draw of 0 can take the loop out of the row.
\<close>

lemma prob_loop_zero_run:
  "prob_loop S n kx toks cx prev row = Defined (Inr (row', cx')) \<Longrightarrow> length row = n \<Longrightarrow> cx \<le> n \<Longrightarrow>
   cx \<le> j \<Longrightarrow> j < cx' \<Longrightarrow> (\<forall>i. cx \<le> i \<and> i \<le> j \<longrightarrow> FloatEqualZero (prob (row' ! i))) \<Longrightarrow>
   prob_bound (row' ! j) = prev"
proof (induction toks arbitrary: cx prev row)
  case Nil
  then show ?case by simp
next
  case (Cons tok toks)
  obtain p e where pe: "S tok = (p, e)" by (cases "S tok")
  define b where "b = (if FloatEqualZero p then prev else p + prev)"
  define row1 where "row1 = row[cx := (row ! cx)\<lparr>prob := p, prob_bound := b\<rparr>]"
  from Cons.prems(1) pe have cxn: "cx < n"
    and rec: "prob_loop S n kx toks (cx + 1) b row1 = Defined (Inr (row', cx'))"
    by (auto simp: Let_def b_def row1_def split: if_splits)
  have len1: "length row1 = n" using Cons.prems(2) by (simp add: row1_def)
  from prob_loop_Inr [OF rec len1] cxn have "row' ! cx = row1 ! cx" by simp
  then have at_cx: "row' ! cx = (row ! cx)\<lparr>prob := p, prob_bound := b\<rparr>"
    using cxn Cons.prems(2) by (simp add: row1_def)
  from Cons.prems(4,6) have "FloatEqualZero (prob (row' ! cx))" by simp
  with at_cx have bp: "b = prev" by (simp add: b_def)
  show ?case
  proof (cases "j = cx")
    case True
    with at_cx bp show ?thesis by simp
  next
    case False
    with Cons.prems(4) have j: "cx + 1 \<le> j" by simp
    from Cons.IH [OF rec len1 _ j Cons.prems(5)] Cons.prems(6) cxn
    have "prob_bound (row' ! j) = b" by simp
    with bp show ?thesis by simp
  qed
qed

lemma back_scan_finds:
  "ix \<le> length row \<Longrightarrow> i < ix \<Longrightarrow> \<not> FloatEqualZero (prob (row ! i)) \<Longrightarrow>
   \<exists>j. back_scan row ix = Defined j"
proof (induction ix)
  case 0
  then show ?case by simp
next
  case (Suc k)
  show ?case
  proof (cases "FloatEqualZero (prob (row ! k))")
    case False
    with Suc.prems show ?thesis by simp
  next
    case True
    with Suc.prems have "i < k" by (cases "i = k") auto
    with Suc.IH Suc.prems True show ?thesis by simp
  qed
qed

lemma fwd_scan_stops:
  "n \<le> length row \<Longrightarrow> ix \<le> n \<Longrightarrow> 0 < n \<Longrightarrow>
   \<exists>ix1. fwd_scan row n r ix = Defined ix1 \<and> ix1 \<le> n \<and>
     (ix < n \<longrightarrow> 0 < ix1 \<and> (r \<le> prob_bound (row ! (ix1 - 1)) \<or> ix1 = n))"
proof (induction row n r ix rule: fwd_scan.induct)
  case (1 row n r ix)
  show ?case
  proof (cases "ix < n")
    case False
    with "1.prems" show ?thesis by (simp add: fwd_scan.simps)
  next
    case True
    with "1.prems" have l: "ix < length row" by simp
    show ?thesis
    proof (cases "prob_bound (row ! ix) < r")
      case False
      with True l show ?thesis by (simp add: fwd_scan.simps [of row n r ix])
    next
      case lt: True
      from "1.IH" [OF True l lt "1.prems"(1)] True "1.prems"(3) obtain ix1 where
        s: "fwd_scan row n r (ix + 1) = Defined ix1" "ix1 \<le> n"
           "ix + 1 < n \<longrightarrow> 0 < ix1 \<and> (r \<le> prob_bound (row ! (ix1 - 1)) \<or> ix1 = n)"
        by auto
      have eq: "fwd_scan row n r ix = fwd_scan row n r (ix + 1)"
        using True l lt by (simp add: fwd_scan.simps [of row n r ix])
      show ?thesis
      proof (cases "ix + 1 < n")
        case True
        with s eq show ?thesis by auto
      next
        case False
        with True have "ix + 1 = n" by simp
        then have "fwd_scan row n r (ix + 1) = Defined n" by (simp add: fwd_scan.simps [of row n r n])
        with eq \<open>0 < n\<close> show ?thesis by simp
      qed
    qed
  qed
qed


lemma row_body_mass:
  assumes "row_body S A n kx bra trow = ([], Defined (Some (row, bra')))"
    and "length trow = n" and "j < n"
    and "\<forall>i \<le> j. FloatEqualZero (prob (row ! i))"
  shows "prob_bound (row ! j) = 0"
proof -
  from assms(1) obtain tok pos cx where
    pl: "prob_loop S n kx (strtok_list (CHR '','') (cstr pos)) 0 0
           (trow[0 := (trow ! 0)\<lparr>val := A tok, len := A tok\<rparr>]) = Defined (Inr (row, cx))"
    and cx: "cx = n"
    unfolding row_body_def
    by (auto simp: Let_def split: behaviour.splits prod.splits if_splits sum.splits)
  from prob_loop_zero_run [OF pl _ _ _ _, of j] assms(2,3,4) cx show ?thesis by simp
qed

lemma rows_loop_mass:
  "rows_loop S A n todo kx bra tmp msgs = (msgs, Defined (Some tmp')) \<Longrightarrow>
   kx + todo = n \<Longrightarrow> length tmp = n \<Longrightarrow> (\<forall>r < n. length (tmp ! r) = n) \<Longrightarrow>
   kx \<le> rx \<Longrightarrow> rx < n \<Longrightarrow> j < n \<Longrightarrow> (\<forall>i \<le> j. FloatEqualZero (prob (tmp' ! rx ! i))) \<Longrightarrow>
   prob_bound (tmp' ! rx ! j) = 0"
proof (induction todo arbitrary: kx bra tmp)
  case 0
  then show ?case by simp
next
  case (Suc todo)
  from Suc.prems(2) have kxn: "kx < n" by simp
  obtain w r where rb: "row_body S A n kx bra (tmp ! kx) = (w, r)"
    by (cases "row_body S A n kx bra (tmp ! kx)")
  with Suc.prems(1) obtain row bra' where r: "r = Defined (Some (row, bra'))"
    and rec: "rows_loop S A n todo (kx + 1) bra' (tmp[kx := row]) (msgs @ w) = (msgs, Defined (Some tmp'))"
    by (auto split: behaviour.splits option.splits)
  from rows_loop_diags [OF rec] have w: "w = []" by auto
  from Suc.prems(4) kxn have lk: "length (tmp ! kx) = n" by simp
  from row_body_row [OF rb [unfolded r] lk] kxn have row: "length row = n" by auto
  have shape: "length (tmp[kx := row]) = n" "\<forall>r < n. length (tmp[kx := row] ! r) = n"
    using Suc.prems(3,4) row kxn by (auto simp: nth_list_update)
  from rec w have rec': "rows_loop S A n todo (kx + 1) bra' (tmp[kx := row]) msgs = (msgs, Defined (Some tmp'))"
    by simp
  show ?case
  proof (cases "rx = kx")
    case False
    with Suc.prems(5) have "kx + 1 \<le> rx" by simp
    from Suc.IH [OF rec' _ shape this Suc.prems(6,7,8)] Suc.prems(2) show ?thesis by simp
  next
    case True
    from rows_loop_Some [OF rec' _ shape] Suc.prems(2,3) kxn have "tmp' ! kx = row" by simp
    with True Suc.prems(8) have z: "\<forall>i \<le> j. FloatEqualZero (prob (row ! i))" by simp
    from row_body_mass [OF rb [unfolded r w] lk Suc.prems(7) z] \<open>tmp' ! kx = row\<close> True
    show ?thesis by simp
  qed
qed

lemma init_mass:
  assumes "markov_graph_init S A U s = ([], Defined (Some g))"
    and "rx < count g" and "j < count g"
    and "\<forall>i \<le> j. FloatEqualZero (prob (entrys g ! rx ! i))"
  shows "prob_bound (entrys g ! rx ! j) = 0"
proof -
  define n where "n = length (strtok_list (CHR ''<'') (deblank s))"
  from init_graph [OF assms(1)] have cn: "count g = n" by (simp add: n_def)
  with assms(2) have pos: "0 < n" by simp
  define tmp0 where "tmp0 = map (\<lambda>rx. map (U rx) [0..<n]) [0..<n]"
  define bra0 where "bra0 = dropWhile (\<lambda>c. c = CHR ''<'') (bra_mark False (deblank s))"
  from assms(1) pos obtain tmp where
    rl: "rows_loop S A n n 0 bra0 tmp0 [] = ([], Defined (Some tmp))"
    and g: "g = \<lparr>count = n, seed = 0, cur_row = 0, cur_col = 0, entrys = fill_values n tmp\<rparr>"
    unfolding markov_graph_init_def Let_def n_def [symmetric] tmp0_def [symmetric] bra0_def [symmetric]
    by (auto split: prod.splits behaviour.splits option.splits)
  have sh: "length tmp0 = n" "\<forall>r < n. length (tmp0 ! r) = n" by (simp_all add: tmp0_def)
  have cell: "\<And>c. c < n \<Longrightarrow> prob (entrys g ! rx ! c) = prob (tmp ! rx ! c) \<and>
                 prob_bound (entrys g ! rx ! c) = prob_bound (tmp ! rx ! c)"
    using assms(2) cn by (simp add: g fill_values_nth)
  from assms(3,4) cn cell have z: "\<forall>i \<le> j. FloatEqualZero (prob (tmp ! rx ! i))" by auto
  from rows_loop_mass [OF rl _ sh _ _ _ z] assms(2,3) cn have "prob_bound (tmp ! rx ! j) = 0" by simp
  with cell [of j] assms(3) cn show ?thesis by simp
qed

lemma markov_graph_next_draw_defined:
  assumes init: "markov_graph_init S A U s = ([], Defined (Some g))"
    and c: "c < count g" and r: "0 < r"
  shows "\<exists>l ix. markov_graph_next_draw (g\<lparr>cur_row := c\<rparr>) r = Defined (l, g\<lparr>cur_row := ix\<rparr>) \<and>
           ix < count g \<and> \<not> FloatEqualZero (prob (entrys g ! c ! ix))"
proof -
  let ?n = "count g" and ?row = "entrys g ! c"
  from init_graph [OF init] have sq: "length (entrys g) = ?n"
    "list_all (\<lambda>row. length row = ?n) (entrys g)" "list_all row_valid (entrys g)" by blast+
  from sq c have len: "length ?row = ?n" and valid: "row_valid ?row" by (simp_all add: list_all_length)
  from c have pos: "0 < ?n" by simp
  from fwd_scan_stops [of ?n ?row 0 r] len pos obtain ix1 where
    f: "fwd_scan ?row ?n r 0 = Defined ix1" "ix1 \<le> ?n" "0 < ix1"
       "r \<le> prob_bound (?row ! (ix1 - 1)) \<or> ix1 = ?n" by auto
  have "?row \<noteq> []" using len pos by auto
  then have "last ?row = ?row ! (?n - 1)" using len by (simp add: last_conv_nth)
  with valid have last: "prob_bound (?row ! (?n - 1)) \<ge> 1 - FLOATTOLERANCE"
    by (simp add: row_valid_def abs_le_iff)
  have bpos: "0 < prob_bound (?row ! (ix1 - 1))"
    using f(4) r last by (auto simp: FLOATTOLERANCE_def)
  have "\<not> (\<forall>i \<le> ix1 - 1. FloatEqualZero (prob (?row ! i)))"
  proof
    assume a: "\<forall>i \<le> ix1 - 1. FloatEqualZero (prob (?row ! i))"
    have "ix1 - 1 < ?n" using f(2,3) by simp
    from init_mass [OF init c this a] bpos show False by simp
  qed
  then obtain i where "i \<le> ix1 - 1" and nz: "\<not> FloatEqualZero (prob (?row ! i))" by blast
  with f(3) have "i < ix1" by simp
  note i = this nz
  from back_scan_finds [OF _ i] f(2) len obtain j where b: "back_scan ?row ix1 = Defined j" by auto
  from back_scan_Defined [OF b] f(2) have j: "j < ?n" "\<not> FloatEqualZero (prob (?row ! j))" by auto
  from sq j(1) pos have "0 < length (entrys g ! j)" by (simp add: list_all_length)
  with f(1) b j c sq(1) have
    "markov_graph_next_draw (g\<lparr>cur_row := c\<rparr>) r = Defined (len (entrys g ! j ! 0), g\<lparr>cur_row := j\<rparr>)"
    by (simp add: markov_graph_next_draw_def)
  with j show ?thesis by blast
qed

subsection \<open>The examples\<close>





subsection \<open>The claims about the graph\<close>






















text \<open>
  C8. Two runs over graphs with the same matrix and the same cursor, seeded with the
  same value, produce the same sequence of states and labels, whatever state the
  generator of the C library was in before and whatever the graphs' other fields hold.
\<close>

theorem sampling_deterministic:
  assumes "entrys g1 = entrys g2" and "count g1 = count g2" and "cur_row g1 = cur_row g2"
  shows "sample_run rand M k (markov_graph_set_seed srand (g1, rng1) sd)
       = sample_run rand M k (markov_graph_set_seed srand (g2, rng2) sd)"
  unfolding markov_graph_set_seed_def using assms by (intro sample_run_cong) simp_all

theorem sampling_deterministic_witness:
  "(let g = \<lparr>count = 2, seed = 0, cur_row = 0, cur_col = 0, entrys =
       [[\<lparr>val = 5, len = 5, prob = 1 / 2, prob_bound = 1 / 2\<rparr>,
         \<lparr>val = 7, len = 0, prob = 1 / 2, prob_bound = 1\<rparr>],
        [\<lparr>val = 5, len = 7, prob = 0, prob_bound = 0\<rparr>,
         \<lparr>val = 7, len = 0, prob = 1, prob_bound = 1\<rparr>]]\<rparr>
    in entrys g = entrys (g\<lparr>seed := 9, cur_col := 4\<rparr>) \<and>
       count g = count (g\<lparr>seed := 9, cur_col := 4\<rparr>) \<and>
       cur_row g = cur_row (g\<lparr>seed := 9, cur_col := 4\<rparr>) \<and>
       sample_run (\<lambda>s. ((7 * s + 3) mod 11, s + 1)) 10 4
         (markov_graph_set_seed (\<lambda>sd. nat sd) (g, 1) 42)
       = sample_run (\<lambda>s. ((7 * s + 3) mod 11, s + 1)) 10 4
         (markov_graph_set_seed (\<lambda>sd. nat sd) (g\<lparr>seed := 9, cur_col := 4\<rparr>, 77) 42) \<and>
       sample_run (\<lambda>s. ((7 * s + 3) mod 11, s + 1)) 10 4
         (markov_graph_set_seed (\<lambda>sd. nat sd) (g, 1) 42)
       = ([(0, 5), (1, 7), (1, 7), (1, 7)], True))"
proof -
  have "sample_run (\<lambda>s. ((7 * s + 3) mod 11, s + 1)) 10 4
         (markov_graph_set_seed (\<lambda>sd. nat sd)
            (\<lparr>count = 2, seed = 0, cur_row = 0, cur_col = 0, entrys =
               [[\<lparr>val = 5, len = 5, prob = 1 / 2, prob_bound = 1 / 2\<rparr>,
                 \<lparr>val = 7, len = 0, prob = 1 / 2, prob_bound = 1\<rparr>],
                [\<lparr>val = 5, len = 7, prob = 0, prob_bound = 0\<rparr>,
                 \<lparr>val = 7, len = 0, prob = 1, prob_bound = 1\<rparr>]]\<rparr>, 1) 42)
       = ([(0, 5), (1, 7), (1, 7), (1, 7)], True)"
    by code_simp
  then show ?thesis
    unfolding Let_def
    by (intro conjI sampling_deterministic) simp_all
qed

end
